theory Spec2Isabelle
  imports Complex_Main "HOL-Library.Word"
begin

section \<open>The retry loop of package retry\<close>

text \<open>
  Package retry gates a caller's loop: \<^verbatim>\<open>for a := Start(strategy, clk, stop); a.Next(); { try() }\<close>.
  The embedding follows \<^verbatim>\<open>retry.go\<close>. Instants (\<^verbatim>\<open>time.Time\<close>) and durations
  (\<^verbatim>\<open>time.Duration\<close>) are integers counting nanoseconds. The attempt counter is a Go
  \<^verbatim>\<open>int\<close>, a signed machine integer of 64 bits on the usual platforms (32 on some): the
  model takes a word of 64 bits, \<^verbatim>\<open>a.count++\<close> wraps around as \<open>+ 1\<close> on words does, and
  \<^verbatim>\<open>Count()\<close> reads the word as a signed integer.
\<close>

subsection \<open>The collaborators: clock, stop channel, timer\<close>

text \<open>
  The two cases of the \<^verbatim>\<open>select\<close> statement in \<^verbatim>\<open>HasNext\<close>.
\<close>

datatype select_case = ClockCase | StopCase

text \<open>
  What an \<^verbatim>\<open>Attempt\<close> does to its collaborators, in order: a call of the timer's
  \<^verbatim>\<open>NextSleep\<close> (with the instant passed), and a wait in \<^verbatim>\<open>select\<close> (with the
  duration given to \<^verbatim>\<open>clock.After\<close> and the case that was received).
\<close>

datatype event = is_NextSleepCall: NextSleepCall int | is_Wait: Wait int select_case

text \<open>
  The implementations of \<^verbatim>\<open>clock.Clock\<close> that the package and its tests use:
  \<^verbatim>\<open>clock.WallClock\<close>, which \<^verbatim>\<open>Start\<close> takes for a nil clock, and the
  \<^verbatim>\<open>mockClock\<close> of \<^verbatim>\<open>retry_test.go\<close>.
\<close>

datatype clock_impl = WallClock | MockClock

text \<open>
  The world outside the \<^verbatim>\<open>Attempt\<close>, as one call finds it: the clock the attempt is
  bound to and the reading of its \<^verbatim>\<open>Now()\<close>; the instant at which the \<^verbatim>\<open>stop\<close>
  channel is closed (\<open>None\<close> for a nil channel or one that is never closed; an instant in
  the past for a channel that is closed already); the case Go's \<^verbatim>\<open>select\<close> chooses
  when both cases can proceed (a pseudo-random choice in Go, here given by the world); and
  the record of the events so far.
\<close>

record world =
  clock :: clock_impl
  now :: int
  stop_at :: "int option"
  pick :: select_case
  trace :: "event list"

text \<open>
  \<^verbatim>\<open>select { case <-a.clock.After(sleep): case <-a.stop: a.running = false }\<close>
  evaluates \<^verbatim>\<open>a.clock.After(sleep)\<close>, then blocks until one of the two receives can
  proceed; when both can, Go chooses one of them at random (\<open>pick\<close>). The result is the
  case taken and the world after the wait, with the wait recorded.
\<close>

definition wake :: "world \<Rightarrow> int \<Rightarrow> select_case \<Rightarrow> int \<Rightarrow> select_case \<times> world" where
  "wake w sleep c t = (c, w\<lparr>now := t, trace := trace w @ [Wait sleep c]\<rparr>)"

text \<open>
  On \<^verbatim>\<open>mockClock\<close>: \<^verbatim>\<open>After(d)\<close> is \<^verbatim>\<open>c.now = c.now.Add(d)\<close> and returns a closed
  channel, so the clock is moved by the call itself and the clock case can proceed at once,
  whatever the duration. The stop case can proceed when the channel is closed already.
\<close>

definition select_mockClock :: "world \<Rightarrow> int \<Rightarrow> select_case \<times> world" where
  "select_mockClock w sleep =
     (case stop_at w of
        None \<Rightarrow> wake w sleep ClockCase (now w + sleep)
      | Some s \<Rightarrow>
          if s \<le> now w then wake w sleep (pick w) (now w + sleep)
          else wake w sleep ClockCase (now w + sleep))"

text \<open>
  Modelled from the spec: \<^verbatim>\<open>clock.WallClock\<close> and the cancellation signal. The clock
  package is not among the sources; the spec asks of the time source a query for the current
  instant and an event that fires after a duration has elapsed, and of the cancellation
  signal an event that fires once cancellation has occurred and stays signalled. So the
  clock case can proceed at \<open>now + sleep\<close> (at once for a sleep that is not positive), the
  stop case from the instant the channel is closed; the earlier one is taken and the clock
  then reads that instant; when both can proceed at the same instant the choice is
  \<open>pick\<close>.
\<close>

definition select_WallClock :: "world \<Rightarrow> int \<Rightarrow> select_case \<times> world" where
  "select_WallClock w sleep =
     (let fire = now w + max sleep 0
      in case stop_at w of
           None \<Rightarrow> wake w sleep ClockCase fire
         | Some s \<Rightarrow>
             (let s' = max s (now w) in
              if s' < fire then wake w sleep StopCase s'
              else if fire < s' then wake w sleep ClockCase fire
              else wake w sleep (pick w) fire))"

definition select :: "world \<Rightarrow> int \<Rightarrow> select_case \<times> world" where
  "select w sleep =
     (case clock w of
        MockClock \<Rightarrow> select_mockClock w sleep
      | WallClock \<Rightarrow> select_WallClock w sleep)"

text \<open>
  \<^verbatim>\<open>Timer\<close> is an interface with one method,
  \<^verbatim>\<open>NextSleep(now time.Time) (time.Duration, bool)\<close>, on an object with a state of its
  own. A timer is a state of some type \<open>'t\<close> together with the method as a function that
  returns the pair of results and the next state.
\<close>

type_synonym 't NextSleep = "'t \<Rightarrow> int \<Rightarrow> (int \<times> bool) \<times> 't"

subsection \<open>Attempt\<close>

text \<open>
  \<^verbatim>\<open>type Attempt struct { clock; stop; timer; count int; waited bool; running bool }\<close>.
  The fields \<^verbatim>\<open>clock\<close> and \<^verbatim>\<open>stop\<close> refer to objects of the \<open>world\<close>; the
  timer belongs to the attempt alone.
\<close>

record 't Attempt =
  timer :: 't
  count :: "64 word"
  waited :: bool
  running :: bool

text \<open>
  \<^verbatim>\<open>Start\<close>: the timer is made by the strategy's \<^verbatim>\<open>NewTimer(clk.Now())\<close>, the
  counter has Go's zero value, \<^verbatim>\<open>waited\<close> and \<^verbatim>\<open>running\<close> are true.
\<close>

definition Start :: "(int \<Rightarrow> 't) \<Rightarrow> world \<Rightarrow> 't Attempt" where
  "Start NewTimer w =
     \<lparr>timer = NewTimer (now w), count = 0, waited = True, running = True\<rparr>"

text \<open>
  \<^verbatim>\<open>HasNext\<close>, statement by statement: the early return; \<^verbatim>\<open>a.waited = true\<close>; the
  call of \<^verbatim>\<open>a.timer.NextSleep(a.clock.Now())\<close>; the return when the timer says stop;
  the \<^verbatim>\<open>select\<close>; the return of \<^verbatim>\<open>a.running\<close>.
\<close>

definition HasNext :: "'t NextSleep \<Rightarrow> world \<Rightarrow> 't Attempt \<Rightarrow> bool \<times> world \<times> 't Attempt" where
  "HasNext ns w a =
     (if waited a \<or> \<not> running a then (running a, w, a)
      else
        let a1 = a\<lparr>waited := True\<rparr>;
            ((sleep, ok), t') = ns (timer a1) (now w);
            w1 = w\<lparr>trace := trace w @ [NextSleepCall (now w)]\<rparr>;
            a2 = a1\<lparr>timer := t'\<rparr>
        in if \<not> ok then (False, w1, a2\<lparr>running := False\<rparr>)
           else
             let a3 = a2\<lparr>waited := True\<rparr>;
                 (c, w2) = select w1 sleep;
                 a4 = (case c of ClockCase \<Rightarrow> a3 | StopCase \<Rightarrow> a3\<lparr>running := False\<rparr>)
             in (running a4, w2, a4))"

text \<open>
  \<^verbatim>\<open>Next\<close>: \<^verbatim>\<open>a.HasNext(); a.waited = false; if a.running { a.count++ }; return a.running\<close>.
\<close>

definition Next :: "'t NextSleep \<Rightarrow> world \<Rightarrow> 't Attempt \<Rightarrow> bool \<times> world \<times> 't Attempt" where
  "Next ns w a =
     (let (r, w1, a1) = HasNext ns w a;
          a2 = a1\<lparr>waited := False\<rparr>;
          a3 = (if running a2 then a2\<lparr>count := count a2 + 1\<rparr> else a2)
      in (running a3, w1, a3))"

definition Count :: "'t Attempt \<Rightarrow> int" where
  "Count a = sint (count a)"

subsection \<open>Sequences of calls\<close>

text \<open>
  A caller's use of an attempt is a sequence of method calls. Between two calls the world
  moves on (time passes, the stop channel may be closed), so each call comes with the
  world it finds. \<open>run\<close> performs the calls in order on the attempt and returns the
  calls with their answers, and the attempt at the end.
\<close>

datatype call = CallNext | CallHasNext | CallCount

datatype answer = ABool bool | AInt int

fun step :: "'t NextSleep \<Rightarrow> call \<Rightarrow> world \<Rightarrow> 't Attempt \<Rightarrow> answer \<times> world \<times> 't Attempt" where
  "step ns CallNext w a = (let (r, w', a') = Next ns w a in (ABool r, w', a'))"
| "step ns CallHasNext w a = (let (r, w', a') = HasNext ns w a in (ABool r, w', a'))"
| "step ns CallCount w a = (AInt (Count a), w, a)"

fun run :: "'t NextSleep \<Rightarrow> 't Attempt \<Rightarrow> (call \<times> world) list \<Rightarrow> (call \<times> answer) list \<times> 't Attempt" where
  "run ns a [] = ([], a)"
| "run ns a ((c, w) # cws) =
     (let (r, w', a') = step ns c w a;
          (h, a'') = run ns a' cws
      in ((c, r) # h, a''))"

text \<open>
  \<open>HasNexts\<close> calls \<^verbatim>\<open>HasNext\<close> once in each world of the list, with no other call in
  between, and returns each call's answer with the events that call added to the trace.
\<close>

fun HasNexts :: "'t NextSleep \<Rightarrow> 't Attempt \<Rightarrow> world list \<Rightarrow> (bool \<times> event list) list \<times> 't Attempt" where
  "HasNexts ns a [] = ([], a)"
| "HasNexts ns a (w # ws) =
     (let (r, w', a') = HasNext ns w a;
          (rs, a'') = HasNexts ns a' ws
      in ((r, drop (length (trace w)) (trace w')) # rs, a''))"

text \<open>
  \<open>counts_ok k h\<close> checks, along the calls and answers \<open>h\<close>, that every \<^verbatim>\<open>Count()\<close>
  answers the number of \<^verbatim>\<open>Next\<close> calls that returned true before it, starting from
  \<open>k\<close>.
\<close>

fun counts_ok :: "int \<Rightarrow> (call \<times> answer) list \<Rightarrow> bool" where
  "counts_ok k [] = True"
| "counts_ok k ((CallCount, r) # h) = (r = AInt k \<and> counts_ok k h)"
| "counts_ok k ((CallNext, r) # h) = counts_ok (if r = ABool True then k + 1 else k) h"
| "counts_ok k ((CallHasNext, r) # h) = counts_ok k h"

definition granted :: "(call \<times> answer) list \<Rightarrow> nat" where
  "granted h = length (filter (\<lambda>cr. cr = (CallNext, ABool True)) h)"

subsection \<open>The test harness\<close>

text \<open>
  Worlds with a nil stop channel and nothing recorded yet: the wall clock reading \<open>t\<close>,
  and the mock clock set to \<open>t\<close>.
\<close>

definition clock_at :: "int \<Rightarrow> world" where
  "clock_at t = \<lparr>clock = WallClock, now = t, stop_at = None, pick = ClockCase, trace = []\<rparr>"

definition mock_at :: "int \<Rightarrow> world" where
  "mock_at t = \<lparr>clock = MockClock, now = t, stop_at = None, pick = ClockCase, trace = []\<rparr>"

text \<open>
  \<^verbatim>\<open>testStrategy\<close> of \<^verbatim>\<open>retry_test.go\<close>: the attempt is started on a mock clock that
  reads \<open>t0\<close>, with a nil stop channel; before each call of \<^verbatim>\<open>Next\<close> the clock is set to
  \<open>t0 + t\<close>, and after the call the test compares the clock with \<open>t0 + t + sleep\<close>. For
  each call the model returns the answer of \<^verbatim>\<open>Next\<close> and how far the call moved the
  clock.
\<close>

fun testCalls :: "'t NextSleep \<Rightarrow> int \<Rightarrow> 't Attempt \<Rightarrow> int list \<Rightarrow> (bool \<times> int) list" where
  "testCalls ns t0 a [] = []"
| "testCalls ns t0 a (t # ts) =
     (let (ok, w', a') = Next ns (mock_at (t0 + t)) a
      in (ok, now w' - (t0 + t)) # testCalls ns t0 a' ts)"

definition testStrategy :: "(int \<Rightarrow> 't) \<Rightarrow> 't NextSleep \<Rightarrow> int \<Rightarrow> int list \<Rightarrow> (bool \<times> int) list" where
  "testStrategy NewTimer ns t0 ts = testCalls ns t0 (Start NewTimer (mock_at t0)) ts"

text \<open>
  A timer without a state that gives the same answer to every call.
\<close>

definition constTimer :: "int \<Rightarrow> bool \<Rightarrow> unit NextSleep" where
  "constTimer sleep ok t n = ((sleep, ok), t)"

text \<open>
  The state of a timer after \<^verbatim>\<open>NextSleep\<close> has been called at each instant of a list,
  in order.
\<close>

fun after_calls :: "'t NextSleep \<Rightarrow> 't \<Rightarrow> int list \<Rightarrow> 't" where
  "after_calls ns t [] = t"
| "after_calls ns t (n # nows) = after_calls ns (snd (ns t n)) nows"

subsection \<open>The strategies\<close>

text \<open>
  The file that implements the strategies \<^verbatim>\<open>Regular\<close> and \<^verbatim>\<open>Exponential\<close> is not
  among the sources: \<^verbatim>\<open>retry_test.go\<close> and the examples only construct them. Their
  timers are modelled from the spec.
\<close>

text \<open>
  \<^verbatim>\<open>retry.Regular{Total, Delay, Min}\<close> and \<^verbatim>\<open>retry.Exponential{Initial, Factor}\<close>, as
  the tests construct them (\<open>Min\<close> is a constant of HOL, hence the longer name).
\<close>

record Regular =
  Total :: int
  Delay :: int
  Min_attempts :: int

record regularTimer =
  strategy :: Regular
  start :: int
  attempts :: int
  prev_at :: int

text \<open>
  Modelled from the spec: the timer of \<^verbatim>\<open>Regular\<close> (its \<^verbatim>\<open>NewTimer\<close> and
  \<^verbatim>\<open>NextSleep\<close> are missing). "On construction records start time." The timer is asked
  for the first time after the unconditional first attempt, so the attempts so far start at 1
  and grow by one with each call. The timer also keeps the instant for which the previous
  attempt was scheduled; for the first attempt that is the start.
\<close>

definition Regular_NewTimer :: "Regular \<Rightarrow> int \<Rightarrow> regularTimer" where
  "Regular_NewTimer r t = \<lparr>strategy = r, start = t, attempts = 1, prev_at = t\<rparr>"

text \<open>
  Modelled from the spec: the next scheduled instant of the \<^verbatim>\<open>Regular\<close> timer. The spec
  has "start + delay * attemptsSoFar" and asks that after a late call "subsequent scheduled
  instants resume their original cadence rather than shifting forward by the lateness
  amount". The table of \<^verbatim>\<open>retry_test.go\<close> ("regular retry with call after next
  deadline": total 3.5e9, delay 1e9, \<^verbatim>\<open>Next\<close> at 0.5e9, 2e9, 2.1e9, 3e9, sleeps 0, 0,
  0.9e9 and no fourth attempt; "we get a zero delay, but subsequent events resume pace")
  decides what happens to the slots that have gone by when a call is late: they are not
  made up for. So the next scheduled instant is the first instant start + delay * j of the
  cadence after the instant of the previous attempt; as long as no slot has gone by unused
  that is start + delay * attemptsSoFar. A delay that is not positive has no cadence, and
  the spec's expression is taken as it stands.
\<close>

definition Regular_instant :: "regularTimer \<Rightarrow> int" where
  "Regular_instant t =
     (let d = Delay (strategy t)
      in start t + d * (if 0 < d then (prev_at t - start t) div d + 1 else attempts t))"

text \<open>
  Modelled from the spec: \<^verbatim>\<open>NextSleep\<close> of the \<^verbatim>\<open>Regular\<close> timer (missing). "If
  attempts-so-far < min, always continue with delay sleep (ignoring total budget).
  Otherwise [...] if that instant is already <= now, sleep is 0; else sleep = instant - now.
  Continue only if (now + sleep) would not exceed start + total, or the min-attempts floor
  has not yet been satisfied. Edge case: total=0 and delay=0 yields exactly one attempt (the
  guaranteed first) then stops." The edge case settles the boundary of the budget: the
  next attempt, made at now + sleep, has to come before start + total.
\<close>

definition Regular_NextSleep :: "regularTimer NextSleep" where
  "Regular_NextSleep t n =
     (let r = strategy t;
          k = attempts t;
          sleep = (if k < Min_attempts r then Delay r
                   else if Regular_instant t \<le> n then 0
                   else Regular_instant t - n);
          t' = t\<lparr>attempts := k + 1, prev_at := n + sleep\<rparr>
      in ((sleep, k < Min_attempts r \<or> n + sleep < start t + Total r), t'))"

record Exponential =
  Initial :: int
  Factor :: rat

record exponentialTimer =
  factor :: rat
  next_at :: int
  interval :: int

text \<open>
  Modelled from the spec: the timer of \<^verbatim>\<open>Exponential\<close> (its \<^verbatim>\<open>NewTimer\<close> and
  \<^verbatim>\<open>NextSleep\<close> are missing). "First sleep is initial; each subsequent sleep multiplies
  the previous by factor. Never terminates on its own." The timer contract adds that the
  answer is a function of the timer's cursor and of now, and that a late call gets a sleep
  that is "zero or reduced", later scheduled instants keeping their cadence; its reference
  run has calls at 0.1e9, 1e9, 3e9, 7e9 sleep for 0.9e9, 2e9, 4e9, 8e9 with initial 1e9 and
  factor 2. So the cursor is the next scheduled instant with the current interval: the
  first instant is start + initial, the sleep is what is left until the instant (0 when it
  has passed), and each call multiplies the interval by the factor and schedules the next
  instant one interval later. The factor is a fraction (the example uses 1.5); the product
  is rounded down to whole nanoseconds.
\<close>

definition Exponential_NewTimer :: "Exponential \<Rightarrow> int \<Rightarrow> exponentialTimer" where
  "Exponential_NewTimer e t =
     \<lparr>factor = Factor e, next_at = t + Initial e, interval = Initial e\<rparr>"

text \<open>
  Modelled from the spec: \<^verbatim>\<open>NextSleep\<close> of the \<^verbatim>\<open>Exponential\<close> timer (missing),
  on the cursor just described: always continue; the sleep is what is left until the
  scheduled instant; the interval is multiplied by the factor and the next instant is one
  interval later.
\<close>

definition Exponential_NextSleep :: "exponentialTimer NextSleep" where
  "Exponential_NextSleep t n =
     (let sleep = (if next_at t \<le> n then 0 else next_at t - n);
          d = \<lfloor>of_int (interval t) * factor t\<rfloor>
      in ((sleep, True), t\<lparr>next_at := next_at t + d, interval := d\<rparr>))"

section \<open>Properties of the attempt\<close>

subsection \<open>What one call does\<close>

lemmas select_defs = select_def select_mockClock_def select_WallClock_def wake_def

lemma select_shape:
  "select w sleep =
     (fst (select w sleep),
      w\<lparr>now := now (snd (select w sleep)),
        trace := trace w @ [Wait sleep (fst (select w sleep))]\<rparr>)"
  by (simp add: select_defs Let_def split: option.splits clock_impl.splits)

lemma HasNext_idle:
  "waited a \<or> \<not> running a \<Longrightarrow> HasNext ns w a = (running a, w, a)"
  by (simp add: HasNext_def)

lemma HasNext_stop:
  assumes "\<not> waited a" "running a" "ns (timer a) (now w) = ((sleep, False), t')"
  shows "HasNext ns w a =
     (False, w\<lparr>trace := trace w @ [NextSleepCall (now w)]\<rparr>,
      a\<lparr>waited := True, timer := t', running := False\<rparr>)"
  using assms by (simp add: HasNext_def)

lemma HasNext_wait:
  assumes "\<not> waited a" "running a" "ns (timer a) (now w) = ((sleep, True), t')"
    and "select (w\<lparr>trace := trace w @ [NextSleepCall (now w)]\<rparr>) sleep = (c, w2)"
  shows "HasNext ns w a =
     (c = ClockCase, w2, a\<lparr>waited := True, timer := t', running := (c = ClockCase)\<rparr>)"
  using assms by (cases c) (simp_all add: HasNext_def)

text \<open>The three ways through \<^verbatim>\<open>HasNext\<close>.\<close>

lemma HasNext_cases:
  obtains (idle) "waited a \<or> \<not> running a" "HasNext ns w a = (running a, w, a)"
  | (timer_stop) sleep t' where "\<not> waited a" "running a"
      "ns (timer a) (now w) = ((sleep, False), t')"
      "HasNext ns w a =
         (False, w\<lparr>trace := trace w @ [NextSleepCall (now w)]\<rparr>,
          a\<lparr>waited := True, timer := t', running := False\<rparr>)"
  | (waits) sleep t' c t where "\<not> waited a" "running a"
      "ns (timer a) (now w) = ((sleep, True), t')"
      "HasNext ns w a =
         (c = ClockCase,
          w\<lparr>now := t, trace := trace w @ [NextSleepCall (now w), Wait sleep c]\<rparr>,
          a\<lparr>waited := True, timer := t', running := (c = ClockCase)\<rparr>)"
proof (cases "waited a \<or> \<not> running a")
  case True
  then show ?thesis using idle HasNext_idle by blast
next
  case False
  then have nw: "\<not> waited a" and ru: "running a" by auto
  obtain sleep ok t' where ns: "ns (timer a) (now w) = ((sleep, ok), t')"
    by (metis surj_pair)
  show ?thesis
  proof (cases ok)
    case False
    with ns have ns': "ns (timer a) (now w) = ((sleep, False), t')" by simp
    show ?thesis
    proof (rule timer_stop)
      show "ns (timer a) (now w) = ((sleep, False), t')" by fact
      show "HasNext ns w a =
         (False, w\<lparr>trace := trace w @ [NextSleepCall (now w)]\<rparr>,
          a\<lparr>waited := True, timer := t', running := False\<rparr>)"
        using nw ru ns' by (rule HasNext_stop)
    qed (use nw ru in simp_all)
  next
    case True
    with ns have ns': "ns (timer a) (now w) = ((sleep, True), t')" by simp
    let ?w1 = "w\<lparr>trace := trace w @ [NextSleepCall (now w)]\<rparr>"
    define c where "c = fst (select ?w1 sleep)"
    define t where "t = now (snd (select ?w1 sleep))"
    have sel: "select ?w1 sleep = (c, ?w1\<lparr>now := t, trace := trace ?w1 @ [Wait sleep c]\<rparr>)"
      unfolding c_def t_def by (rule select_shape)
    show ?thesis
    proof (rule waits)
      show "ns (timer a) (now w) = ((sleep, True), t')" by fact
      show "HasNext ns w a =
         (c = ClockCase,
          w\<lparr>now := t, trace := trace w @ [NextSleepCall (now w), Wait sleep c]\<rparr>,
          a\<lparr>waited := True, timer := t', running := (c = ClockCase)\<rparr>)"
        using nw ru ns' sel by (cases c) (simp_all add: HasNext_def)
    qed (use nw ru in simp_all)
  qed
qed

text \<open>
  After \<^verbatim>\<open>HasNext\<close> the attempt has waited or has stopped, the answer is the
  \<^verbatim>\<open>running\<close> flag, and the counter is as before.
\<close>

lemma HasNext_settled:
  assumes "HasNext ns w a = (r, w', a')"
  shows "(waited a' \<or> \<not> running a') \<and> r = running a' \<and> count a' = count a"
  using assms by (cases rule: HasNext_cases [of a ns w]) auto

lemma Next_unfold:
  assumes "HasNext ns w a = (r, w1, a1)"
  shows "Next ns w a =
     (r, w1, a1\<lparr>waited := False, count := (if r then count a1 + 1 else count a1)\<rparr>)"
  using assms HasNext_settled [OF assms] by (simp add: Next_def)

text \<open>The first \<^verbatim>\<open>Next\<close> after \<^verbatim>\<open>Start\<close> finds \<^verbatim>\<open>waited\<close> set.\<close>

lemma Next_Start:
  "Next ns w (Start NewTimer w0) =
     (True, w, \<lparr>timer = NewTimer (now w0), count = 1, waited = False, running = True\<rparr>)"
  by (simp add: Next_def HasNext_def Start_def)

text \<open>
  A stop channel that is closed when the wait begins wins the \<^verbatim>\<open>select\<close> against a
  positive sleep on the wall clock; against a sleep that is not positive, and on the mock
  clock, both cases can proceed.
\<close>

lemma select_stop_active:
  assumes "stop_at w = Some s" "s \<le> now w"
    and "clock w = WallClock \<and> 0 < sleep \<or> pick w = StopCase"
  shows "fst (select w sleep) = StopCase"
  using assms by (auto simp add: select_defs Let_def max_def split: clock_impl.splits)

lemma HasNext_stop_active:
  assumes "\<not> waited a" "running a" "stop_at w = Some s" "s \<le> now w"
    and "\<And>sleep t'. ns (timer a) (now w) = ((sleep, True), t')
            \<Longrightarrow> clock w = WallClock \<and> 0 < sleep \<or> pick w = StopCase"
  shows "fst (HasNext ns w a) = False"
proof (cases rule: HasNext_cases [of a ns w])
  case idle
  with assms show ?thesis by simp
next
  case (timer_stop sleep t')
  then show ?thesis by simp
next
  case (waits sleep t' c t)
  let ?w1 = "w\<lparr>trace := trace w @ [NextSleepCall (now w)]\<rparr>"
  from assms(5) [OF waits(3)] assms(3,4)
  have "fst (select ?w1 sleep) = StopCase"
    by (intro select_stop_active [of ?w1 s]) simp_all
  then obtain w2 where "select ?w1 sleep = (StopCase, w2)"
    by (cases "select ?w1 sleep") simp
  with waits(1,2,3) show ?thesis by (simp add: HasNext_def)
qed

text \<open>
  With a timer that always says continue and a stop channel that is never closed, the
  attempt keeps running.
\<close>

lemma HasNext_continues:
  assumes "running a" "stop_at w = None" "\<forall>t n. snd (fst (ns t n))"
  shows "fst (HasNext ns w a) \<and> running (snd (snd (HasNext ns w a)))"
proof (cases rule: HasNext_cases [of a ns w])
  case idle
  with assms show ?thesis by simp
next
  case (timer_stop sleep t')
  with assms(3) show ?thesis by (metis fst_conv snd_conv)
next
  case (waits sleep t' c t)
  let ?w1 = "w\<lparr>trace := trace w @ [NextSleepCall (now w)]\<rparr>"
  from assms(2) have "fst (select ?w1 sleep) = ClockCase"
    by (simp add: select_defs Let_def split: clock_impl.splits)
  then obtain w2 where "select ?w1 sleep = (ClockCase, w2)"
    by (cases "select ?w1 sleep") simp
  with waits(1,2,3) show ?thesis by (simp add: HasNext_def)
qed

subsection \<open>Sequences of calls\<close>

lemma HasNexts_idle:
  "waited a \<or> \<not> running a \<Longrightarrow> HasNexts ns a ws = (map (\<lambda>w. (running a, [])) ws, a)"
  by (induction ws) (simp_all add: HasNext_idle)

lemma HasNexts_first:
  assumes "HasNext ns w a = (r, w', a')"
  shows "HasNexts ns a (w # ws) =
     ((r, drop (length (trace w)) (trace w')) # map (\<lambda>w. (r, [])) ws, a')"
proof -
  from HasNext_settled [OF assms] have "waited a' \<or> \<not> running a'" and "r = running a'"
    by simp_all
  then show ?thesis using assms by (simp add: HasNexts_idle)
qed

lemma step_stopped:
  assumes "\<not> running a"
  shows "step ns c w a =
     ((case c of CallCount \<Rightarrow> AInt (Count a) | _ \<Rightarrow> ABool False), w,
      (case c of CallNext \<Rightarrow> a\<lparr>waited := False\<rparr> | _ \<Rightarrow> a))"
proof -
  from assms have h: "HasNext ns w a = (False, w, a)" by (simp add: HasNext_idle)
  show ?thesis by (cases c) (simp_all add: Next_unfold [OF h] h)
qed

lemma run_stopped:
  "\<not> running a \<Longrightarrow>
     (\<forall>(c, r) \<in> set (fst (run ns a cws)). c \<noteq> CallCount \<longrightarrow> r = ABool False)
     \<and> \<not> running (snd (run ns a cws))"
proof (induction cws arbitrary: a)
  case Nil
  then show ?case by simp
next
  case (Cons cw cws)
  obtain c w where cw: "cw = (c, w)" by (cases cw)
  define a' where "a' = (case c of CallNext \<Rightarrow> a\<lparr>waited := False\<rparr> | _ \<Rightarrow> a)"
  define r where "r = (case c of CallCount \<Rightarrow> AInt (Count a) | _ \<Rightarrow> ABool False)"
  have st: "step ns c w a = (r, w, a')"
    unfolding r_def a'_def using Cons.prems by (rule step_stopped)
  have r: "c \<noteq> CallCount \<longrightarrow> r = ABool False"
    by (cases c) (simp_all add: r_def)
  from Cons.prems have "\<not> running a'" by (cases c) (simp_all add: a'_def)
  from Cons.IH [OF this] r show ?case
    by (cases "run ns a' cws") (simp add: cw st del: step.simps)
qed

lemma Next_false_stopped:
  assumes "Next ns w a = (False, w', a')"
  shows "\<not> running a'"
proof -
  obtain r w1 a1 where h: "HasNext ns w a = (r, w1, a1)" by (metis prod_cases3)
  from HasNext_settled [OF h] assms show ?thesis by (auto simp add: Next_unfold [OF h])
qed

lemma step_count:
  "count (snd (snd (step ns c w a))) =
     count a + (if (c, fst (step ns c w a)) = (CallNext, ABool True) then 1 else 0)"
proof -
  obtain r w1 a1 where h: "HasNext ns w a = (r, w1, a1)" by (metis prod_cases3)
  from HasNext_settled [OF h] show ?thesis
    by (cases c) (simp_all add: Next_unfold [OF h] h Count_def)
qed

text \<open>
  The counter is a word of 64 bits: read as a signed integer it follows the number of
  granted attempts as long as that number is below \<open>2 ^ 63\<close>.
\<close>

lemma sint_small:
  assumes "- (2 ^ 63) \<le> i" "i < 2 ^ 63"
  shows "sint (word_of_int i :: 64 word) = i"
proof -
  have "sint (word_of_int i :: 64 word) = signed_take_bit (LENGTH(64) - 1) i"
    by (rule sint_sbintrunc')
  also have "\<dots> = i"
    using assms by (intro signed_take_bit_int_eq_self) simp_all
  finally show ?thesis .
qed

lemma sint_of_nat_small:
  assumes "k < 2 ^ 63"
  shows "sint (of_nat k :: 64 word) = int k"
proof -
  from assms have "int k < 2 ^ 63" by (metis of_nat_less_iff of_nat_numeral of_nat_power)
  then have "sint (word_of_int (int k) :: 64 word) = int k"
    by (intro sint_small) simp_all
  then show ?thesis by simp
qed

lemma sint_succ_small:
  fixes x :: "64 word"
  assumes "sint x < 2 ^ 63 - 1"
  shows "sint (x + 1) = sint x + 1"
proof -
  have ge: "- (2 ^ 63) \<le> sint x" using sint_ge [of x] by simp
  have "sint (word_of_int (sint x + 1) :: 64 word) = sint x + 1"
    using assms ge by (intro sint_small) simp_all
  then show ?thesis by simp
qed

lemma granted_Cons:
  "granted ((c, r) # h) = (if (c, r) = (CallNext, ABool True) then 1 else 0) + granted h"
  by (simp add: granted_def)

lemma run_count:
  "count (snd (run ns a cws)) = count a + of_nat (granted (fst (run ns a cws)))"
proof (induction cws arbitrary: a)
  case Nil
  then show ?case by (simp add: granted_def)
next
  case (Cons cw cws)
  obtain c w where cw: "cw = (c, w)" by (cases cw)
  obtain r w1 a1 where st: "step ns c w a = (r, w1, a1)" by (metis prod_cases3)
  obtain h a2 where rn: "run ns a1 cws = (h, a2)" by (cases "run ns a1 cws")
  from step_count [of ns c w a] st
  have c1: "count a1 = count a + (if (c, r) = (CallNext, ABool True) then 1 else 0)" by simp
  from Cons.IH [of a1] rn have ih: "count a2 = count a1 + of_nat (granted h)" by simp
  have run: "run ns a (cw # cws) = ((c, r) # h, a2)"
    by (simp add: cw st rn del: step.simps)
  show ?case unfolding run using ih c1 by (simp add: granted_Cons)
qed

lemma run_counts_ok:
  "count a = of_nat k \<Longrightarrow> k + granted (fst (run ns a cws)) < 2 ^ 63
     \<Longrightarrow> counts_ok (int k) (fst (run ns a cws))"
proof (induction cws arbitrary: a k)
  case Nil
  then show ?case by simp
next
  case (Cons cw cws)
  obtain c w where cw: "cw = (c, w)" by (cases cw)
  obtain r w1 a1 where st: "step ns c w a = (r, w1, a1)" by (metis prod_cases3)
  obtain h a2 where rn: "run ns a1 cws = (h, a2)" by (cases "run ns a1 cws")
  define g :: nat where "g = (if (c, r) = (CallNext, ABool True) then 1 else 0)"
  have run: "run ns a (cw # cws) = ((c, r) # h, a2)"
    by (simp add: cw st rn del: step.simps)
  from Cons.prems(2) have bound: "k + g + granted h < 2 ^ 63"
    unfolding run by (simp add: granted_Cons g_def)
  from step_count [of ns c w a] st Cons.prems(1)
  have c1: "count a1 = of_nat (k + g)" by (simp add: g_def)
  from Cons.IH [OF c1] bound rn have ih: "counts_ok (int (k + g)) h" by simp
  from bound have "k < 2 ^ 63" by simp
  then have "sint (of_nat k :: 64 word) = int k" by (rule sint_of_nat_small)
  with st Cons.prems(1) have cnt: "c = CallCount \<Longrightarrow> r = AInt (int k)"
    by (auto simp add: Count_def)
  show ?case unfolding run using ih cnt
    by (cases c) (simp_all add: g_def split: if_splits)
qed

lemma step_continues:
  assumes "running a" "stop_at w = None" "\<forall>t n. snd (fst (ns t n))"
  shows "(c \<noteq> CallCount \<longrightarrow> fst (step ns c w a) = ABool True)
    \<and> running (snd (snd (step ns c w a)))"
proof -
  obtain r w1 a1 where h: "HasNext ns w a = (r, w1, a1)" by (metis prod_cases3)
  from HasNext_continues [OF assms] h have "r" "running a1" by simp_all
  with assms(1) show ?thesis
    by (cases c) (simp_all add: Next_unfold [OF h] h)
qed

lemma run_continues:
  assumes "\<forall>t n. snd (fst (ns t n))"
  shows "running a \<Longrightarrow> \<forall>cw \<in> set cws. stop_at (snd cw) = None \<Longrightarrow>
     \<forall>(c, r) \<in> set (fst (run ns a cws)). c \<noteq> CallCount \<longrightarrow> r = ABool True"
proof (induction cws arbitrary: a)
  case Nil
  then show ?case by simp
next
  case (Cons cw cws)
  obtain c w where cw: "cw = (c, w)" by (cases cw)
  obtain r w1 a1 where st: "step ns c w a = (r, w1, a1)" by (metis prod_cases3)
  from Cons.prems(2) cw have w: "stop_at w = None" by simp
  from step_continues [OF Cons.prems(1) w assms, of c] st
  have r: "c \<noteq> CallCount \<longrightarrow> r = ABool True" and a1: "running a1" by simp_all
  from Cons.prems(2) have "\<forall>cw \<in> set cws. stop_at (snd cw) = None" by simp
  from Cons.IH [OF a1 this] r show ?case
    by (cases "run ns a1 cws") (simp add: cw st del: step.simps)
qed

text \<open>
  A loop that only calls \<^verbatim>\<open>Next\<close>, on a timer that always says continue and with a
  stop channel that is never closed: every call is granted.
\<close>

lemma run_Next_granted:
  assumes "\<forall>t n. snd (fst (ns t n))" "stop_at w = None"
  shows "running a \<Longrightarrow>
     fst (run ns a (replicate k (CallNext, w))) = replicate k (CallNext, ABool True)"
proof (induction k arbitrary: a)
  case 0
  then show ?case by simp
next
  case (Suc k)
  obtain r w1 a1 where st: "step ns CallNext w a = (r, w1, a1)" by (metis prod_cases3)
  from step_continues [OF Suc.prems assms(2,1), of CallNext] st
  have r: "r = ABool True" and a1: "running a1" by simp_all
  from Suc.IH [OF a1] r show ?case
    by (cases "run ns a1 (replicate k (CallNext, w))") (simp add: st del: step.simps)
qed

lemma granted_replicate:
  "granted (replicate k (CallNext, ABool True)) = k"
  by (induction k) (simp_all add: granted_def)

subsection \<open>The timers of the strategies\<close>

text \<open>
  Calls of the \<^verbatim>\<open>Regular\<close> timer leave its strategy and its start alone and count the
  attempts; the instant kept for the previous attempt is the one at which the call before
  has scheduled it.
\<close>

lemma Regular_step:
  "strategy (snd (Regular_NextSleep t n)) = strategy t
   \<and> start (snd (Regular_NextSleep t n)) = start t
   \<and> attempts (snd (Regular_NextSleep t n)) = attempts t + 1
   \<and> prev_at (snd (Regular_NextSleep t n)) = n + fst (fst (Regular_NextSleep t n))"
  by (simp add: Regular_NextSleep_def Let_def)

lemma Regular_after_calls:
  "strategy (after_calls Regular_NextSleep t nows) = strategy t
   \<and> start (after_calls Regular_NextSleep t nows) = start t
   \<and> attempts (after_calls Regular_NextSleep t nows) = attempts t + int (length nows)"
proof (induction nows arbitrary: t)
  case Nil
  then show ?case by simp
next
  case (Cons n nows)
  from Cons.IH [of "snd (Regular_NextSleep t n)"] Regular_step [of t n]
  show ?case by simp
qed

lemma Regular_reached:
  "strategy (after_calls Regular_NextSleep (Regular_NewTimer r st) nows) = r"
  "start (after_calls Regular_NextSleep (Regular_NewTimer r st) nows) = st"
  "attempts (after_calls Regular_NextSleep (Regular_NewTimer r st) nows) = 1 + int (length nows)"
  using Regular_after_calls [of "Regular_NewTimer r st" nows]
  by (simp_all add: Regular_NewTimer_def)


text \<open>
  The \<^verbatim>\<open>Exponential\<close> timer: the interval and the scheduled instant after any earlier
  calls, whenever they were made.
\<close>

lemma Exponential_step:
  "factor (snd (Exponential_NextSleep t n)) = factor t
   \<and> interval (snd (Exponential_NextSleep t n)) = \<lfloor>of_int (interval t) * factor t\<rfloor>
   \<and> next_at (snd (Exponential_NextSleep t n)) = next_at t + \<lfloor>of_int (interval t) * factor t\<rfloor>"
  by (simp add: Exponential_NextSleep_def Let_def)

lemma Exponential_after_calls:
  "interval (after_calls Exponential_NextSleep t nows) =
     ((\<lambda>d. \<lfloor>of_int d * factor t\<rfloor>) ^^ length nows) (interval t)
   \<and> factor (after_calls Exponential_NextSleep t nows) = factor t
   \<and> next_at (after_calls Exponential_NextSleep t nows) =
       next_at t + (\<Sum>j = 1..length nows. ((\<lambda>d. \<lfloor>of_int d * factor t\<rfloor>) ^^ j) (interval t))"
proof (induction nows arbitrary: t)
  case Nil
  then show ?case by simp
next
  case (Cons n nows)
  define f where "f = (\<lambda>d. \<lfloor>of_int d * factor t\<rfloor>)"
  define g where "g = (\<lambda>j. (f ^^ j) (interval t))"
  let ?t' = "snd (Exponential_NextSleep t n)"
  from Exponential_step [of t n]
  have t': "factor ?t' = factor t" "interval ?t' = f (interval t)"
    "next_at ?t' = next_at t + f (interval t)"
    by (simp_all add: f_def)
  have swap: "(f ^^ j) (f (interval t)) = g (Suc j)" for j
    by (simp add: g_def funpow_Suc_right del: funpow.simps)
  have g1: "g 1 = f (interval t)" by (simp add: g_def)
  have "(\<Sum>j = 1..Suc (length nows). g j) = g 1 + (\<Sum>j = Suc 1..Suc (length nows). g j)"
    by (rule sum.atLeast_Suc_atMost) simp
  also have "(\<Sum>j = Suc 1..Suc (length nows). g j) = (\<Sum>j = 1..length nows. g (Suc j))"
    by (rule sum.shift_bounds_cl_Suc_ivl)
  finally have split: "(\<Sum>j = 1..Suc (length nows). g j)
      = f (interval t) + (\<Sum>j = 1..length nows. (f ^^ j) (f (interval t)))"
    by (simp only: g1 swap)
  from Cons.IH [of ?t']
  have ih: "interval (after_calls Exponential_NextSleep ?t' nows) = (f ^^ length nows) (f (interval t))"
    "factor (after_calls Exponential_NextSleep ?t' nows) = factor t"
    "next_at (after_calls Exponential_NextSleep ?t' nows)
       = next_at t + f (interval t) + (\<Sum>j = 1..length nows. (f ^^ j) (f (interval t)))"
    by (simp_all only: t' f_def)
  have iv: "(f ^^ length nows) (f (interval t)) = (f ^^ length (n # nows)) (interval t)"
    by (simp add: funpow_Suc_right del: funpow.simps)
  have len: "length (n # nows) = Suc (length nows)" by simp
  show ?case
    unfolding after_calls.simps f_def [symmetric] g_def [symmetric] ih
    using iv split by (simp only: len g_def) simp
qed

section \<open>The claims\<close>

text \<open>
  C1. For every strategy and every timer, the first \<^verbatim>\<open>Next\<close> on a freshly started
  attempt returns true; the world is left as it was (no \<^verbatim>\<open>NextSleep\<close> call and no
  wait are recorded, the clock is not moved) and the timer keeps the state that
  \<^verbatim>\<open>NewTimer\<close> gave it.
\<close>

theorem first_Next_granted:
  "Next ns w (Start NewTimer w0) =
     (True, w, \<lparr>timer = NewTimer (now w0), count = 1, waited = False, running = True\<rparr>)"
  by (simp add: Next_def HasNext_def Start_def)

text \<open>
  The degenerate \<^verbatim>\<open>Regular{}\<close> (total 0, delay 0), started and asked at the same
  instant.
\<close>

theorem first_Next_granted_witness:
  "Next Regular_NextSleep (clock_at 0)
      (Start (Regular_NewTimer \<lparr>Total = 0, Delay = 0, Min_attempts = 0\<rparr>) (clock_at 0))
    = (True, clock_at 0,
       \<lparr>timer = \<lparr>strategy = \<lparr>Total = 0, Delay = 0, Min_attempts = 0\<rparr>, start = 0, attempts = 1,
                  prev_at = 0\<rparr>,
          count = 1, waited = False, running = True\<rparr>)"
  using first_Next_granted [of Regular_NextSleep "clock_at 0"
      "Regular_NewTimer \<lparr>Total = 0, Delay = 0, Min_attempts = 0\<rparr>" "clock_at 0"]
  by (simp add: Regular_NewTimer_def clock_at_def)

text \<open>
  C2. For every attempt and every non-empty list of worlds, calling \<^verbatim>\<open>HasNext\<close> once
  in each world with no other call in between returns on every call what the first call
  returned, and all the calls together record at most one wait and at most one call of
  \<^verbatim>\<open>NextSleep\<close>.
\<close>

theorem HasNext_repeated:
  assumes "ws \<noteq> []"
  shows "map fst (fst (HasNexts ns a ws)) = replicate (length ws) (fst (HasNext ns (hd ws) a))
    \<and> length (filter is_Wait (concat (map snd (fst (HasNexts ns a ws))))) \<le> 1
    \<and> length (filter is_NextSleepCall (concat (map snd (fst (HasNexts ns a ws))))) \<le> 1"
proof -
  from assms obtain w ws' where ws: "ws = w # ws'" by (cases ws) auto
  have later: "concat (map (\<lambda>w. []) ws') = ([] :: event list)"
    by (induction ws') simp_all
  have same: "map (\<lambda>w. r) ws' = replicate (length ws') r" for r :: bool
    by (induction ws') simp_all
  show ?thesis
  proof (cases rule: HasNext_cases [of a ns w])
    case idle
    show ?thesis unfolding ws HasNexts_first [OF idle(2)]
      by (simp add: comp_def later same idle(2))
  next
    case (timer_stop sleep t')
    show ?thesis unfolding ws HasNexts_first [OF timer_stop(4)]
      by (simp add: comp_def later same timer_stop(4))
  next
    case (waits sleep t' c t)
    show ?thesis unfolding ws HasNexts_first [OF waits(4)]
      by (simp add: comp_def later same waits(4))
  qed
qed

text \<open>Three calls in a row, at 0, 3 and 9, with a timer that asks for a sleep of 5.\<close>

theorem HasNext_repeated_witness:
  "map fst (fst (HasNexts (constTimer 5 True)
       \<lparr>timer = (), count = 1, waited = False, running = True\<rparr>
       [clock_at 0, clock_at 3, clock_at 9])) = [True, True, True]
   \<and> length (filter is_Wait (concat (map snd (fst (HasNexts (constTimer 5 True)
       \<lparr>timer = (), count = 1, waited = False, running = True\<rparr>
       [clock_at 0, clock_at 3, clock_at 9]))))) \<le> 1
   \<and> length (filter is_NextSleepCall (concat (map snd (fst (HasNexts (constTimer 5 True)
       \<lparr>timer = (), count = 1, waited = False, running = True\<rparr>
       [clock_at 0, clock_at 3, clock_at 9]))))) \<le> 1"
proof -
  have first: "fst (HasNext (constTimer 5 True) (clock_at 0)
       \<lparr>timer = (), count = 1, waited = False, running = True\<rparr>) = True"
    by (simp add: HasNext_def constTimer_def select_defs clock_at_def)
  from HasNext_repeated [of "[clock_at 0, clock_at 3, clock_at 9]" "constTimer 5 True"
      "\<lparr>timer = (), count = 1, waited = False, running = True\<rparr>"] first
  show ?thesis by (simp add: numeral_3_eq_3)
qed

text \<open>
  C3. Once \<^verbatim>\<open>Next\<close> has returned false the attempt is not running, and after any
  further calls in any worlds every \<^verbatim>\<open>Next\<close> and every \<^verbatim>\<open>HasNext\<close> among them
  has answered false and the attempt is still not running.
\<close>

theorem terminal_stable:
  assumes "Next ns w a = (False, w', a')"
  shows "\<not> running a'
    \<and> (\<forall>(c, r) \<in> set (fst (run ns a' cws)). c \<noteq> CallCount \<longrightarrow> r = ABool False)
    \<and> \<not> running (snd (run ns a' cws))"
  using run_stopped [OF Next_false_stopped [OF assms]] Next_false_stopped [OF assms]
  by blast

text \<open>
  A timer that says stop at once: the second \<^verbatim>\<open>Next\<close> returns false, and so do the
  calls after it.
\<close>

theorem terminal_stable_witness:
  "Next (constTimer 0 False) (clock_at 0) \<lparr>timer = (), count = 1, waited = False, running = True\<rparr>
     = (False, (clock_at 0)\<lparr>trace := [NextSleepCall 0]\<rparr>,
        \<lparr>timer = (), count = 1, waited = False, running = False\<rparr>)
   \<and> fst (run (constTimer 0 False) \<lparr>timer = (), count = 1, waited = False, running = False\<rparr>
        [(CallNext, clock_at 1), (CallHasNext, clock_at 2), (CallCount, clock_at 3)])
      = [(CallNext, ABool False), (CallHasNext, ABool False), (CallCount, AInt 1)]
   \<and> \<not> running (snd (run (constTimer 0 False) \<lparr>timer = (), count = 1, waited = False, running = False\<rparr>
        [(CallNext, clock_at 1), (CallHasNext, clock_at 2), (CallCount, clock_at 3)]))"
proof -
  have h: "Next (constTimer 0 False) (clock_at 0) \<lparr>timer = (), count = 1, waited = False, running = True\<rparr>
     = (False, (clock_at 0)\<lparr>trace := [NextSleepCall 0]\<rparr>,
        \<lparr>timer = (), count = 1, waited = False, running = False\<rparr>)"
    by (simp add: Next_def HasNext_def constTimer_def clock_at_def)
  have r: "fst (run (constTimer 0 False) \<lparr>timer = (), count = 1, waited = False, running = False\<rparr>
        [(CallNext, clock_at 1), (CallHasNext, clock_at 2), (CallCount, clock_at 3)])
      = [(CallNext, ABool False), (CallHasNext, ABool False), (CallCount, AInt 1)]"
    by (simp add: Next_def HasNext_def Count_def)
  from terminal_stable [OF h, of "[(CallNext, clock_at 1), (CallHasNext, clock_at 2), (CallCount, clock_at 3)]"] h r
  show ?thesis by simp
qed

text \<open>
  C4, amended. \<^verbatim>\<open>Count()\<close> is 0 on a fresh attempt. Along every sequence of calls in
  which fewer than \<open>2 ^ 63\<close> calls of \<^verbatim>\<open>Next\<close> have returned true, each \<^verbatim>\<open>Count()\<close>
  answers the number of \<^verbatim>\<open>Next\<close> calls that returned true before it, and so does the
  counter at the end. In every state whose counter is below the largest \<^verbatim>\<open>int\<close>, a
  single call adds 1 to the counter when it is a \<^verbatim>\<open>Next\<close> that returns true and leaves
  it alone otherwise, so it does not decrease it.
\<close>

theorem Count_is_granted:
  "Count (Start NewTimer w0) = 0
   \<and> (granted (fst (run ns (Start NewTimer w0) cws)) < 2 ^ 63 \<longrightarrow>
        counts_ok 0 (fst (run ns (Start NewTimer w0) cws))
        \<and> Count (snd (run ns (Start NewTimer w0) cws))
            = int (granted (fst (run ns (Start NewTimer w0) cws))))
   \<and> (Count a < 2 ^ 63 - 1 \<longrightarrow>
        Count (snd (snd (step ns c w a))) =
          Count a + (if (c, fst (step ns c w a)) = (CallNext, ABool True) then 1 else 0)
        \<and> Count a \<le> Count (snd (snd (step ns c w a))))"
proof -
  let ?a0 = "Start NewTimer w0"
  have z: "count ?a0 = 0" by (simp add: Start_def)
  then have zero: "Count ?a0 = 0" by (simp add: Count_def)
  have runs: "counts_ok 0 (fst (run ns ?a0 cws))
        \<and> Count (snd (run ns ?a0 cws)) = int (granted (fst (run ns ?a0 cws)))"
    if g: "granted (fst (run ns ?a0 cws)) < 2 ^ 63"
  proof -
    from z have "count ?a0 = of_nat 0" by simp
    from run_counts_ok [OF this] g have ok: "counts_ok 0 (fst (run ns ?a0 cws))" by simp
    from run_count [of ns ?a0 cws] z
    have "count (snd (run ns ?a0 cws)) = of_nat (granted (fst (run ns ?a0 cws)))" by simp
    with sint_of_nat_small [OF g] ok show ?thesis by (simp add: Count_def)
  qed
  have steps: "Count (snd (snd (step ns c w a))) =
          Count a + (if (c, fst (step ns c w a)) = (CallNext, ABool True) then 1 else 0)
        \<and> Count a \<le> Count (snd (snd (step ns c w a)))"
    if less: "Count a < 2 ^ 63 - 1"
  proof -
    from less have "sint (count a + 1) = sint (count a) + 1"
      by (intro sint_succ_small) (simp add: Count_def)
    with step_count [of ns c w a] show ?thesis
      by (cases "(c, fst (step ns c w a)) = (CallNext, ABool True)")
        (auto simp add: Count_def simp del: step.simps)
  qed
  from zero runs steps show ?thesis by blast
qed

text \<open>
  A timer that continues while the clock reads less than 10: two attempts are granted, the
  third \<^verbatim>\<open>Next\<close> is refused.
\<close>

theorem Count_is_granted_witness:
  "fst (run (\<lambda>t n. ((0, n < 10), t)) (Start (\<lambda>n. ()) (clock_at 0))
      [(CallCount, clock_at 0), (CallNext, clock_at 1), (CallCount, clock_at 2),
       (CallHasNext, clock_at 3), (CallNext, clock_at 4), (CallCount, clock_at 5),
       (CallNext, clock_at 20), (CallCount, clock_at 21)])
    = [(CallCount, AInt 0), (CallNext, ABool True), (CallCount, AInt 1),
       (CallHasNext, ABool True), (CallNext, ABool True), (CallCount, AInt 2),
       (CallNext, ABool False), (CallCount, AInt 2)]
   \<and> Count (snd (run (\<lambda>t n. ((0, n < 10), t)) (Start (\<lambda>n. ()) (clock_at 0))
      [(CallCount, clock_at 0), (CallNext, clock_at 1), (CallCount, clock_at 2),
       (CallHasNext, clock_at 3), (CallNext, clock_at 4), (CallCount, clock_at 5),
       (CallNext, clock_at 20), (CallCount, clock_at 21)])) = 2"
proof -
  let ?cws = "[(CallCount, clock_at 0), (CallNext, clock_at 1), (CallCount, clock_at 2),
       (CallHasNext, clock_at 3), (CallNext, clock_at 4), (CallCount, clock_at 5),
       (CallNext, clock_at 20), (CallCount, clock_at 21)]"
  let ?run = "run (\<lambda>t n. ((0, n < 10), t)) (Start (\<lambda>n. ()) (clock_at 0)) ?cws"
  have h: "fst ?run
    = [(CallCount, AInt 0), (CallNext, ABool True), (CallCount, AInt 1),
       (CallHasNext, ABool True), (CallNext, ABool True), (CallCount, AInt 2),
       (CallNext, ABool False), (CallCount, AInt 2)]"
    by (simp add: Start_def Next_def HasNext_def Count_def select_defs clock_at_def)
  then have g: "granted (fst ?run) = 2" by (simp add: granted_def)
  have "granted (fst ?run) < 2 ^ 63 \<longrightarrow> Count (snd ?run) = int (granted (fst ?run))"
    using Count_is_granted [of "\<lambda>n. ()" "clock_at 0" "\<lambda>t n. ((0, n < 10), t)" ?cws
        "Start (\<lambda>n. ()) (clock_at 0)" CallCount "clock_at 0"]
    by blast
  with g h show ?thesis by simp
qed

text \<open>
  The claim as stated, for every attempt and every sequence, fails at the largest
  \<^verbatim>\<open>int\<close>: there a \<^verbatim>\<open>Next\<close> that returns true wraps the counter to the smallest
  \<^verbatim>\<open>int\<close>. A loop of \<open>2 ^ 63\<close> calls of \<^verbatim>\<open>Next\<close> on a timer that always continues
  with a sleep of 0 gets there: all its calls return true and \<^verbatim>\<open>Count()\<close> is negative
  at the end.
\<close>

theorem Count_wraps:
  "fst (Next (constTimer 0 True) (clock_at 0)
      \<lparr>timer = (), count = 0x7FFFFFFFFFFFFFFF, waited = True, running = True\<rparr>) = True
   \<and> Count \<lparr>timer = (), count = 0x7FFFFFFFFFFFFFFF, waited = True, running = True\<rparr>
       = 9223372036854775807
   \<and> Count (snd (snd (Next (constTimer 0 True) (clock_at 0)
      \<lparr>timer = (), count = 0x7FFFFFFFFFFFFFFF, waited = True, running = True\<rparr>)))
       = - 9223372036854775808
   \<and> granted (fst (run (constTimer 0 True) (Start (\<lambda>n. ()) (clock_at 0))
        (replicate (2 ^ 63) (CallNext, clock_at 0)))) = 2 ^ 63
   \<and> Count (snd (run (constTimer 0 True) (Start (\<lambda>n. ()) (clock_at 0))
        (replicate (2 ^ 63) (CallNext, clock_at 0)))) = - 9223372036854775808"
proof -
  let ?a = "\<lparr>timer = (), count = 0x7FFFFFFFFFFFFFFF :: 64 word, waited = True, running = True\<rparr>"
  have one: "Next (constTimer 0 True) (clock_at 0) ?a =
      (True, clock_at 0, ?a\<lparr>waited := False, count := 0x7FFFFFFFFFFFFFFF + 1\<rparr>)"
    by (simp add: Next_def HasNext_def)
  have top: "Count ?a = 9223372036854775807" by (simp add: Count_def)
  have wrapped: "Count (snd (snd (Next (constTimer 0 True) (clock_at 0) ?a))) = - 9223372036854775808"
    unfolding one by (simp add: Count_def)
  let ?a0 = "Start (\<lambda>n. ()) (clock_at 0) :: unit Attempt"
  let ?loop = "run (constTimer 0 True) ?a0 (replicate (2 ^ 63) (CallNext, clock_at 0))"
  have cont: "\<forall>t n. snd (fst (constTimer 0 True t n))" by (simp add: constTimer_def)
  have nostop: "stop_at (clock_at 0) = None" by (simp add: clock_at_def)
  have ru: "running ?a0" by (simp add: Start_def)
  have all: "fst ?loop = replicate (2 ^ 63) (CallNext, ABool True)"
    using cont nostop ru by (rule run_Next_granted)
  then have g: "granted (fst ?loop) = 2 ^ 63" by (simp only: granted_replicate)
  have "count (snd ?loop) = count ?a0 + of_nat (granted (fst ?loop))" by (rule run_count)
  with g have "count (snd ?loop) = of_nat (2 ^ 63)" by (simp add: Start_def)
  then have neg: "Count (snd ?loop) = - 9223372036854775808" by (simp add: Count_def)
  from one top wrapped g neg show ?thesis by simp
qed

text \<open>
  C5. In every state of an attempt, \<^verbatim>\<open>HasNext\<close> returns what a \<^verbatim>\<open>Next\<close> called
  right after it returns, in whatever world that call is made, and \<^verbatim>\<open>HasNext\<close> leaves
  the attempt counter as it was.
\<close>

theorem HasNext_predicts_Next:
  assumes "HasNext ns w a = (r, w1, a1)"
  shows "fst (Next ns w2 a1) = r \<and> Count a1 = Count a"
proof -
  from HasNext_settled [OF assms]
  have idle: "waited a1 \<or> \<not> running a1" and r: "r = running a1" and c: "count a1 = count a"
    by simp_all
  from idle have "HasNext ns w2 a1 = (running a1, w2, a1)" by (rule HasNext_idle)
  then have "fst (Next ns w2 a1) = running a1" by (simp add: Next_unfold)
  with r c show ?thesis by (simp add: Count_def)
qed

text \<open>A wait of 5 that the stop channel, closed at 2, cuts short.\<close>

theorem HasNext_predicts_Next_witness:
  "HasNext (constTimer 5 True) \<lparr>clock = WallClock, now = 0, stop_at = Some 2, pick = ClockCase, trace = []\<rparr>
      \<lparr>timer = (), count = 1, waited = False, running = True\<rparr>
     = (False, \<lparr>clock = WallClock, now = 2, stop_at = Some 2, pick = ClockCase,
                trace = [NextSleepCall 0, Wait 5 StopCase]\<rparr>,
        \<lparr>timer = (), count = 1, waited = True, running = False\<rparr>)
   \<and> fst (Next (constTimer 5 True) (clock_at 9) \<lparr>timer = (), count = 1, waited = True, running = False\<rparr>)
      = False
   \<and> Count \<lparr>timer = (), count = 1, waited = True, running = False\<rparr> = 1"
proof -
  have h: "HasNext (constTimer 5 True) \<lparr>clock = WallClock, now = 0, stop_at = Some 2, pick = ClockCase, trace = []\<rparr>
      \<lparr>timer = (), count = 1, waited = False, running = True\<rparr>
     = (False, \<lparr>clock = WallClock, now = 2, stop_at = Some 2, pick = ClockCase,
                trace = [NextSleepCall 0, Wait 5 StopCase]\<rparr>,
        \<lparr>timer = (), count = 1, waited = True, running = False\<rparr>)"
    by (simp add: HasNext_def constTimer_def select_defs)
  from HasNext_predicts_Next [OF h, of "clock_at 9"] h show ?thesis by (simp add: Count_def)
qed

text \<open>
  C6, amended. The stop channel is closed before the wait of the second \<^verbatim>\<open>Next\<close>
  begins. The first \<^verbatim>\<open>Next\<close> returns true. The second returns false, and the counter
  stays at 1, whenever the timer says stop (exhaustion), or asks for a positive sleep on
  the wall clock (the stop case is then the only one that can proceed), or
  \<^verbatim>\<open>select\<close>, both cases being able to proceed, takes the stop case. Exhaustion and
  cancellation both show as the answer false.
\<close>

theorem stop_before_wait:
  assumes "stop_at w1 = Some s" and "s \<le> now w1"
    and "\<And>sleep t'. ns (NewTimer (now w0)) (now w1) = ((sleep, True), t')
            \<Longrightarrow> clock w1 = WallClock \<and> 0 < sleep \<or> pick w1 = StopCase"
  shows "fst (Next ns w (Start NewTimer w0)) = True
    \<and> fst (Next ns w1 (snd (snd (Next ns w (Start NewTimer w0))))) = False
    \<and> Count (snd (snd (Next ns w1 (snd (snd (Next ns w (Start NewTimer w0))))))) = 1"
proof -
  let ?a1 = "\<lparr>timer = NewTimer (now w0), count = 1, waited = False, running = True\<rparr>"
  obtain r w2 a2 where h: "HasNext ns w1 ?a1 = (r, w2, a2)" by (metis prod_cases3)
  have "fst (HasNext ns w1 ?a1) = False"
    using assms by (intro HasNext_stop_active [of ?a1 w1 s]) simp_all
  with h have r: "r = False" by simp
  from HasNext_settled [OF h] have "count a2 = 1" by simp
  with r show ?thesis by (simp add: Next_Start Next_unfold [OF h] Count_def)
qed

text \<open>
  A sleep of 5 s on the wall clock, with the stop channel closed at 1 and the second call
  at 3.
\<close>

theorem stop_before_wait_witness:
  "fst (Next (constTimer 5000000000 True) (clock_at 0) (Start (\<lambda>n. ()) (clock_at 0))) = True
   \<and> fst (Next (constTimer 5000000000 True)
        \<lparr>clock = WallClock, now = 3, stop_at = Some 1, pick = ClockCase, trace = []\<rparr>
        (snd (snd (Next (constTimer 5000000000 True) (clock_at 0) (Start (\<lambda>n. ()) (clock_at 0)))))) = False"
  using stop_before_wait [of "\<lparr>clock = WallClock, now = 3, stop_at = Some 1, pick = ClockCase, trace = []\<rparr>" 1
      "constTimer 5000000000 True" "\<lambda>n. ()" "clock_at 0" "clock_at 0"]
  by (simp add: constTimer_def)

text \<open>
  The claim as stated, for every configured delay, fails for a delay of 0: the timer
  continues with a sleep of 0, the channel of \<^verbatim>\<open>clock.After(0)\<close> and the closed stop
  channel can both proceed, \<^verbatim>\<open>select\<close> may take the clock case, and the second
  \<^verbatim>\<open>Next\<close> grants a second attempt. On the mock clock of the tests, whose
  \<^verbatim>\<open>After\<close> returns a closed channel, the same happens with a delay of 5 s.
\<close>

theorem stop_before_zero_sleep:
  "fst (Next (constTimer 0 True)
        \<lparr>clock = WallClock, now = 3, stop_at = Some 1, pick = ClockCase, trace = []\<rparr>
        (snd (snd (Next (constTimer 0 True) (clock_at 0) (Start (\<lambda>n. ()) (clock_at 0)))))) = True
   \<and> fst (Next (constTimer 5000000000 True)
        \<lparr>clock = MockClock, now = 3, stop_at = Some 1, pick = ClockCase, trace = []\<rparr>
        (snd (snd (Next (constTimer 5000000000 True) (mock_at 0) (Start (\<lambda>n. ()) (mock_at 0)))))) = True"
proof -
  have "snd (snd (Next ns w (Start (\<lambda>n. ()) w0))) =
      \<lparr>timer = (), count = 1, waited = False, running = True\<rparr>" for ns w w0
    by (simp add: Next_Start)
  then show ?thesis
    by (simp add: constTimer_def Next_def HasNext_def select_defs)
qed




text \<open>
  C8. For the \<^verbatim>\<open>Regular\<close> timer as the spec describes it, after any earlier calls, while
  the attempts so far are fewer than the minimum the timer says continue with the delay as
  the sleep, whatever the instant and the total. With \<^verbatim>\<open>Regular{Total: 1e8, Min: 2}\<close>
  the first \<^verbatim>\<open>Next\<close>, \<^verbatim>\<open>HasNext\<close> and the second \<^verbatim>\<open>Next\<close> return true at any
  instants, and a \<^verbatim>\<open>HasNext\<close> made after that, more than 1e8 ns after the start, and
  the \<^verbatim>\<open>Next\<close> that follows it return false.
\<close>

theorem Regular_min_floor:
  "(1 + int (length nows) < Min_attempts r \<longrightarrow>
      fst (Regular_NextSleep (after_calls Regular_NextSleep (Regular_NewTimer r st) nows) n)
        = (Delay r, True))
   \<and> (t0 + 100000000 < t4 \<longrightarrow>
      map snd (fst (run Regular_NextSleep
        (Start (Regular_NewTimer \<lparr>Total = 100000000, Delay = 0, Min_attempts = 2\<rparr>) (clock_at t0))
        [(CallNext, clock_at t1), (CallHasNext, clock_at t2), (CallNext, clock_at t3),
         (CallHasNext, clock_at t4), (CallNext, clock_at t5)]))
      = [ABool True, ABool True, ABool True, ABool False, ABool False])"
proof -
  let ?t = "after_calls Regular_NextSleep (Regular_NewTimer r st) nows"
  note reached = Regular_reached [of r st nows]
  have floor: "1 + int (length nows) < Min_attempts r \<longrightarrow>
      fst (Regular_NextSleep ?t n) = (Delay r, True)"
    using reached by (simp add: Regular_NextSleep_def Let_def)
  have ex: "t0 + 100000000 < t4 \<longrightarrow>
      map snd (fst (run Regular_NextSleep
        (Start (Regular_NewTimer \<lparr>Total = 100000000, Delay = 0, Min_attempts = 2\<rparr>) (clock_at t0))
        [(CallNext, clock_at t1), (CallHasNext, clock_at t2), (CallNext, clock_at t3),
         (CallHasNext, clock_at t4), (CallNext, clock_at t5)]))
      = [ABool True, ABool True, ABool True, ABool False, ABool False]"
    by (simp add: Start_def clock_at_def Next_def HasNext_def select_defs
        Regular_NewTimer_def Regular_NextSleep_def Regular_instant_def Let_def)
  from floor ex show ?thesis by blast
qed

text \<open>
  A minimum of 3 with a total of 10, asked after 1000; and the calls of the test, the
  first three made 5 ns and the last two 9 ns after the total has run out.
\<close>

theorem Regular_min_floor_witness:
  "fst (Regular_NextSleep (after_calls Regular_NextSleep
       (Regular_NewTimer \<lparr>Total = 10, Delay = 7, Min_attempts = 3\<rparr> 0) []) 1000) = (7, True)
   \<and> map snd (fst (run Regular_NextSleep
        (Start (Regular_NewTimer \<lparr>Total = 100000000, Delay = 0, Min_attempts = 2\<rparr>) (clock_at 0))
        [(CallNext, clock_at 100000005), (CallHasNext, clock_at 100000005),
         (CallNext, clock_at 100000005), (CallHasNext, clock_at 100000009),
         (CallNext, clock_at 100000009)]))
      = [ABool True, ABool True, ABool True, ABool False, ABool False]"
  using Regular_min_floor [of "[]" "\<lparr>Total = 10, Delay = 7, Min_attempts = 3\<rparr>" 0 1000
      0 100000009 100000005 100000005 100000005 100000009]
  by simp

text \<open>
  C9. The \<^verbatim>\<open>Exponential\<close> timer never terminates on its own: every call says continue,
  and an attempt on this timer whose stop channel is never closed answers true to every
  \<^verbatim>\<open>Next\<close> and \<^verbatim>\<open>HasNext\<close>. The first scheduled instant is initial after the start,
  and each call schedules the next instant one interval after the one before, the interval
  being the previous interval multiplied by the factor (rounded down), whenever the calls
  are made: after any earlier calls the interval is initial multiplied by the factor once
  per call, and the next scheduled instant is the start plus the intervals so far. A call
  sleeps for what is left until the scheduled instant (0 when it has passed): asked at the
  start the first sleep is initial, and a call made at the instant of the previous attempt
  sleeps for the whole interval. For \<^verbatim>\<open>Exponential{Initial: 1e9, Factor: 2}\<close> with
  \<^verbatim>\<open>Next\<close> called at 0, 0.1e9, 1e9, 3e9 and 7e9 the calls sleep for 0, 0.9e9, 2e9, 4e9
  and 8e9.
\<close>

theorem Exponential_continues:
  "snd (fst (Exponential_NextSleep t n))
   \<and> fst (fst (Exponential_NextSleep t n)) = max 0 (next_at t - n)
   \<and> next_at (Exponential_NewTimer e st) = st + Initial e
   \<and> interval (snd (Exponential_NextSleep t n)) = \<lfloor>of_int (interval t) * factor t\<rfloor>
   \<and> next_at (snd (Exponential_NextSleep t n)) = next_at t + interval (snd (Exponential_NextSleep t n))
   \<and> interval (after_calls Exponential_NextSleep (Exponential_NewTimer e st) nows) =
       ((\<lambda>d. \<lfloor>of_int d * Factor e\<rfloor>) ^^ length nows) (Initial e)
   \<and> next_at (after_calls Exponential_NextSleep (Exponential_NewTimer e st) nows) =
       st + (\<Sum>j = 0..length nows. ((\<lambda>d. \<lfloor>of_int d * Factor e\<rfloor>) ^^ j) (Initial e))
   \<and> fst (fst (Exponential_NextSleep (Exponential_NewTimer e st) st)) = max 0 (Initial e)
   \<and> fst (fst (Exponential_NextSleep t (next_at t - interval t))) = max 0 (interval t)
   \<and> ((\<forall>cw \<in> set cws. stop_at (snd cw) = None) \<longrightarrow>
       (\<forall>(c, r) \<in> set (fst (run Exponential_NextSleep (Start (Exponential_NewTimer e) w0) cws)).
          c \<noteq> CallCount \<longrightarrow> r = ABool True))
   \<and> testStrategy (Exponential_NewTimer \<lparr>Initial = 1000000000, Factor = 2\<rparr>) Exponential_NextSleep t0
        [0, 100000000, 1000000000, 3000000000, 7000000000]
       = [(True, 0), (True, 900000000), (True, 2000000000), (True, 4000000000), (True, 8000000000)]"
proof -
  let ?f = "\<lambda>d. \<lfloor>of_int d * Factor e\<rfloor>"
  have ok: "\<forall>t n. snd (fst (Exponential_NextSleep t n))"
    by (simp add: Exponential_NextSleep_def Let_def)
  have sl: "fst (fst (Exponential_NextSleep t n)) = max 0 (next_at t - n)" for t n
    by (simp add: Exponential_NextSleep_def Let_def max_def)
  have n0: "next_at (Exponential_NewTimer e st) = st + Initial e"
    by (simp add: Exponential_NewTimer_def)
  have i1: "interval (snd (Exponential_NextSleep t n)) = \<lfloor>of_int (interval t) * factor t\<rfloor>"
    using Exponential_step [of t n] by simp
  have n1: "next_at (snd (Exponential_NextSleep t n))
      = next_at t + interval (snd (Exponential_NextSleep t n))"
    using Exponential_step [of t n] by simp
  note ac = Exponential_after_calls [of "Exponential_NewTimer e st" nows]
  have iv: "interval (after_calls Exponential_NextSleep (Exponential_NewTimer e st) nows) =
       (?f ^^ length nows) (Initial e)"
    using ac by (simp add: Exponential_NewTimer_def)
  have "(\<Sum>j = 0..length nows. (?f ^^ j) (Initial e))
      = Initial e + (\<Sum>j = 1..length nows. (?f ^^ j) (Initial e))"
    by (simp add: sum.atLeast_Suc_atMost)
  then have nx: "next_at (after_calls Exponential_NextSleep (Exponential_NewTimer e st) nows) =
       st + (\<Sum>j = 0..length nows. (?f ^^ j) (Initial e))"
    using ac by (simp add: Exponential_NewTimer_def)
  have first: "fst (fst (Exponential_NextSleep (Exponential_NewTimer e st) st)) = max 0 (Initial e)"
    by (simp add: sl n0)
  have ontime: "fst (fst (Exponential_NextSleep t (next_at t - interval t))) = max 0 (interval t)"
    by (simp add: sl)
  have ru: "running (Start (Exponential_NewTimer e) w0)" by (simp add: Start_def)
  have nt: "(\<forall>cw \<in> set cws. stop_at (snd cw) = None) \<longrightarrow>
       (\<forall>(c, r) \<in> set (fst (run Exponential_NextSleep (Start (Exponential_NewTimer e) w0) cws)).
          c \<noteq> CallCount \<longrightarrow> r = ABool True)"
    using run_continues [OF ok ru] by blast
  have ex: "testStrategy (Exponential_NewTimer \<lparr>Initial = 1000000000, Factor = 2\<rparr>) Exponential_NextSleep t0
        [0, 100000000, 1000000000, 3000000000, 7000000000]
       = [(True, 0), (True, 900000000), (True, 2000000000), (True, 4000000000), (True, 8000000000)]"
    by (simp add: testStrategy_def Start_def mock_at_def Next_def HasNext_def select_defs
        Exponential_NewTimer_def Exponential_NextSleep_def Let_def)
  from ok sl [of t n] n0 i1 n1 iv nx first ontime nt ex show ?thesis by blast
qed

text \<open>
  Initial 10 ms and factor 1.5: the interval and the scheduled instant after three calls,
  two of them late, and four calls that are all granted.
\<close>

theorem Exponential_continues_witness:
  "map (\<lambda>cw. stop_at (snd cw))
      [(CallNext, clock_at 0), (CallNext, clock_at 1), (CallHasNext, clock_at 20000000),
       (CallNext, clock_at 20000000)] = [None, None, None, None]
   \<and> interval (after_calls Exponential_NextSleep
      (Exponential_NewTimer \<lparr>Initial = 10000000, Factor = 3 / 2\<rparr> 0) [5, 90000000, 100000000]) = 33750000
   \<and> next_at (after_calls Exponential_NextSleep
      (Exponential_NewTimer \<lparr>Initial = 10000000, Factor = 3 / 2\<rparr> 0) [5, 90000000, 100000000]) = 81250000
   \<and> map snd (fst (run Exponential_NextSleep
        (Start (Exponential_NewTimer \<lparr>Initial = 10000000, Factor = 3 / 2\<rparr>) (clock_at 0))
        [(CallNext, clock_at 0), (CallNext, clock_at 1), (CallHasNext, clock_at 20000000),
         (CallNext, clock_at 20000000)]))
      = [ABool True, ABool True, ABool True, ABool True]"
proof -
  note th = Exponential_continues [of "Exponential_NewTimer \<lparr>Initial = 10000000, Factor = 3 / 2\<rparr> 0" 5
      "\<lparr>Initial = 10000000, Factor = 3 / 2\<rparr>" 0 "[5, 90000000, 100000000]"
      "[(CallNext, clock_at 0), (CallNext, clock_at 1), (CallHasNext, clock_at 20000000),
         (CallNext, clock_at 20000000)]" "clock_at 0" 0]
  have iv: "interval (after_calls Exponential_NextSleep
      (Exponential_NewTimer \<lparr>Initial = 10000000, Factor = 3 / 2\<rparr> 0) [5, 90000000, 100000000]) = 33750000"
    using th by (simp add: eval_nat_numeral)
  have nx: "next_at (after_calls Exponential_NextSleep
      (Exponential_NewTimer \<lparr>Initial = 10000000, Factor = 3 / 2\<rparr> 0) [5, 90000000, 100000000]) = 81250000"
    using th by (simp add: eval_nat_numeral sum.atLeast_Suc_atMost)
  have "map snd (fst (run Exponential_NextSleep
        (Start (Exponential_NewTimer \<lparr>Initial = 10000000, Factor = 3 / 2\<rparr>) (clock_at 0))
        [(CallNext, clock_at 0), (CallNext, clock_at 1), (CallHasNext, clock_at 20000000),
         (CallNext, clock_at 20000000)]))
      = [ABool True, ABool True, ABool True, ABool True]"
    by (simp add: Start_def clock_at_def Next_def HasNext_def select_defs
        Exponential_NewTimer_def Exponential_NextSleep_def Let_def)
  with iv nx show ?thesis by (simp add: clock_at_def)
qed

text \<open>
  C10. When \<^verbatim>\<open>HasNext\<close> has to ask the timer and \<^verbatim>\<open>NextSleep\<close> says stop, the call
  returns false and the attempt stops running. The world after the call is the world
  before it with the \<^verbatim>\<open>NextSleep\<close> call recorded: no wait is recorded and the clock is
  not moved. Neither the sleep that came with the stop nor the stop channel has a part in
  the outcome, and the counter is untouched.
\<close>

theorem timer_stop_ends_attempt:
  assumes "\<not> waited a" "running a" "ns (timer a) (now w) = ((sleep, False), t')"
  shows "HasNext ns w a =
     (False, w\<lparr>trace := trace w @ [NextSleepCall (now w)]\<rparr>,
      a\<lparr>waited := True, timer := t', running := False\<rparr>)
    \<and> now (fst (snd (HasNext ns w a))) = now w
    \<and> filter is_Wait (trace (fst (snd (HasNext ns w a)))) = filter is_Wait (trace w)
    \<and> count (snd (snd (HasNext ns w a))) = count a
    \<and> fst (HasNext ns (w\<lparr>stop_at := s, pick := p\<rparr>) a) = False"
proof -
  have here: "HasNext ns w a =
     (False, w\<lparr>trace := trace w @ [NextSleepCall (now w)]\<rparr>,
      a\<lparr>waited := True, timer := t', running := False\<rparr>)"
    using assms by (rule HasNext_stop)
  have "ns (timer a) (now (w\<lparr>stop_at := s, pick := p\<rparr>)) = ((sleep, False), t')"
    using assms(3) by simp
  with assms(1,2) have "fst (HasNext ns (w\<lparr>stop_at := s, pick := p\<rparr>) a) = False"
    by (simp add: HasNext_def)
  with here show ?thesis by simp
qed

text \<open>
  A stop that comes with a sleep of 7, on a closed stop channel.
\<close>

theorem timer_stop_ends_attempt_witness:
  "HasNext (constTimer 7 False) \<lparr>clock = WallClock, now = 3, stop_at = Some 0, pick = StopCase, trace = []\<rparr>
      \<lparr>timer = (), count = 1, waited = False, running = True\<rparr>
     = (False, \<lparr>clock = WallClock, now = 3, stop_at = Some 0, pick = StopCase, trace = [NextSleepCall 3]\<rparr>,
        \<lparr>timer = (), count = 1, waited = True, running = False\<rparr>)"
  using timer_stop_ends_attempt [of "\<lparr>timer = (), count = 1, waited = False, running = True\<rparr>"
      "constTimer 7 False" "\<lparr>clock = WallClock, now = 3, stop_at = Some 0, pick = StopCase, trace = []\<rparr>" 7 "()"]
  by (simp add: constTimer_def)

end
